theory Spec2Isabelle
  imports Main "HOL-Library.Word" "HOL-Library.Multiset"
begin

section \<open>The string duplicator (StrdupFunction.c)\<close>

subsection \<open>Memory\<close>

text \<open>
  A C \<open>char\<close> is a byte, modelled by the 8-bit type \<^typ>\<open>char\<close>; the terminator
  \<open>'\0'\<close> is \<open>CHR 0x00\<close>. Memory is a partial map from addresses to bytes: an address
  that is mapped belongs to a live object, an unmapped one does not. A pointer is an
  address or \<open>NULL\<close> (\<open>None\<close>).

  Besides the bytes, the state records every memory operation that was performed, the
  latest first, so that "this call scanned, allocated or copied nothing" and "this call
  wrote only into the new buffer" are statements about the state.
\<close>

type_synonym addr = nat
type_synonym ptr = "addr option"

datatype event = Read addr | Write addr | Alloc nat ptr

record heap =
  cells :: "addr \<rightharpoonup> char"
  trace :: "event list"

text \<open>
  Two things the C standard leaves undefined can happen in \<open>my_strdup\<close>: an access
  outside every live object, and the overflow of the \<open>int\<close> counter. The model stops
  there and reports which one it was, together with the state reached.
\<close>

datatype fault = Invalid_Access | Signed_Overflow

definition INT_MAX :: nat where
  "INT_MAX = 2147483647"

definition load :: "addr \<Rightarrow> heap \<Rightarrow> (fault + char) \<times> heap" where
  "load a h =
     (case cells h a of
        None \<Rightarrow> (Inl Invalid_Access, h)
      | Some c \<Rightarrow> (Inr c, h\<lparr>trace := Read a # trace h\<rparr>))"

definition store :: "addr \<Rightarrow> char \<Rightarrow> heap \<Rightarrow> (fault + unit) \<times> heap" where
  "store a c h =
     (case cells h a of
        None \<Rightarrow> (Inl Invalid_Access, h)
      | Some _ \<Rightarrow> (Inr (), h\<lparr>cells := (cells h)(a \<mapsto> c), trace := Write a # trace h\<rparr>))"

definition block_free :: "heap \<Rightarrow> addr \<Rightarrow> nat \<Rightarrow> bool" where
  "block_free h p n \<longleftrightarrow> list_all (\<lambda>a. cells h a = None) [p..<p + n]"

text \<open>
  Modelled from the spec: \<open>malloc\<close> is the C library's and is not part of the repository.
  The spec says "allocate a new buffer of exactly length + 1 units", that the allocation
  may fail, and that the duplicate is "a distinct allocation". Whether the allocator
  succeeds, where it places the block and what the fresh bytes hold is its own choice,
  given here by \<open>env\<close>: \<open>None\<close> when it refuses, \<open>Some (p, junk)\<close> when it offers the
  block at \<open>p\<close> whose bytes initially hold \<open>junk\<close>. An offer that overlaps a live object
  is no allocation: the call fails.
\<close>

definition malloc :: "(addr \<times> (addr \<Rightarrow> char)) option \<Rightarrow> nat \<Rightarrow> heap \<Rightarrow> ptr \<times> heap" where
  "malloc env n h =
     (case env of
        None \<Rightarrow> (None, h\<lparr>trace := Alloc n None # trace h\<rparr>)
      | Some (p, junk) \<Rightarrow>
          if block_free h p n
          then (Some p,
                h\<lparr>cells := (\<lambda>a. if p \<le> a \<and> a < p + n then Some (junk a) else cells h a),
                  trace := Alloc n (Some p) # trace h\<rparr>)
          else (None, h\<lparr>trace := Alloc n None # trace h\<rparr>))"

subsection \<open>my\_strdup\<close>

text \<open>
  Lines 6 to 9: \<open>int length = 0; while (s[length] != '\0') length++;\<close>.
  The counter is an \<open>int\<close>: incrementing it at \<open>INT_MAX\<close> overflows. That bound is also
  what makes the loop terminate.
\<close>

function scan :: "addr \<Rightarrow> nat \<Rightarrow> heap \<Rightarrow> (fault + nat) \<times> heap" where
  "scan s len h =
     (case load (s + len) h of
        (Inl f, h') \<Rightarrow> (Inl f, h')
      | (Inr c, h') \<Rightarrow>
          if c = CHR 0x00 then (Inr len, h')
          else if INT_MAX \<le> len then (Inl Signed_Overflow, h')
          else scan s (len + 1) h')"
  by pat_completeness auto
termination
  by (relation "measure (\<lambda>(s, len, h). INT_MAX - len)") auto

declare scan.simps [simp del]

text \<open>Lines 14 to 16: \<open>for (int i = 0; i <= length; i++) copy[i] = s[i];\<close>\<close>

function copy_loop :: "addr \<Rightarrow> addr \<Rightarrow> nat \<Rightarrow> nat \<Rightarrow> heap \<Rightarrow> (fault + unit) \<times> heap" where
  "copy_loop copy s len i h =
     (if i \<le> len then
        (case load (s + i) h of
           (Inl f, h1) \<Rightarrow> (Inl f, h1)
         | (Inr c, h1) \<Rightarrow>
             (case store (copy + i) c h1 of
                (Inl f, h2) \<Rightarrow> (Inl f, h2)
              | (Inr u, h2) \<Rightarrow> copy_loop copy s len (i + 1) h2))
      else (Inr (), h))"
  by pat_completeness auto
termination
  by (relation "measure (\<lambda>(copy, s, len, i, h). len + 1 - i)") auto

declare copy_loop.simps [simp del]

text \<open>
  The whole function. \<open>length + 1\<close> in line 11 is an \<open>int\<close> addition and overflows when
  \<open>length\<close> is \<open>INT_MAX\<close>.
\<close>

definition my_strdup ::
  "(addr \<times> (addr \<Rightarrow> char)) option \<Rightarrow> ptr \<Rightarrow> heap \<Rightarrow> (fault + ptr) \<times> heap" where
  "my_strdup env s h =
     (case s of
        None \<Rightarrow> (Inr None, h)
      | Some sa \<Rightarrow>
          (case scan sa 0 h of
             (Inl f, h1) \<Rightarrow> (Inl f, h1)
           | (Inr len, h1) \<Rightarrow>
               if INT_MAX \<le> len then (Inl Signed_Overflow, h1)
               else
                 (case malloc env (len + 1) h1 of
                    (None, h2) \<Rightarrow> (Inr None, h2)
                  | (Some copy, h2) \<Rightarrow>
                      (case copy_loop copy sa len 0 h2 of
                         (Inl f, h3) \<Rightarrow> (Inl f, h3)
                       | (Inr u, h3) \<Rightarrow> (Inr (Some copy), h3)))))"

text \<open>
  \<open>c_string h s bs\<close>: at address \<open>s\<close> the memory holds the string \<open>bs\<close>, that is the
  bytes of \<open>bs\<close>, none of them zero, followed by the terminator.
\<close>

definition c_string :: "heap \<Rightarrow> addr \<Rightarrow> string \<Rightarrow> bool" where
  "c_string h s bs \<longleftrightarrow>
     CHR 0x00 \<notin> set bs \<and>
     map (cells h) [s..<s + length bs + 1] = map Some (bs @ [CHR 0x00])"

text \<open>The events a run from \<open>h\<close> to \<open>h'\<close> has performed, the latest first.\<close>

definition performed :: "heap \<Rightarrow> heap \<Rightarrow> event list" where
  "performed h h' = take (length (trace h') - length (trace h)) (trace h')"

text \<open>
  The events of the two loops on a string of \<open>n\<close> bytes at \<open>s\<close>, the latest first: the scan
  reads \<open>s[0]\<close> up to the terminator (or up to \<open>s[INT_MAX]\<close> when the string is longer),
  the copy reads \<open>s[j]\<close> and writes \<open>copy[j]\<close> for \<open>j = 0, \<dots>, n\<close>.
\<close>

definition scan_reads :: "addr \<Rightarrow> nat \<Rightarrow> event list" where
  "scan_reads s n = rev (map Read [s..<s + min n INT_MAX + 1])"

definition copy_events :: "addr \<Rightarrow> addr \<Rightarrow> nat \<Rightarrow> event list" where
  "copy_events copy s n = rev (concat (map (\<lambda>j. [Read (s + j), Write (copy + j)]) [0..<n + 1]))"

text \<open>A small concrete memory: the string \<open>"hi"\<close> at address 10, nothing else.\<close>

definition hi_heap :: heap where
  "hi_heap = \<lparr>cells = [10 \<mapsto> CHR ''h'', 11 \<mapsto> CHR ''i'', 12 \<mapsto> CHR 0x00], trace = []\<rparr>"

section \<open>The ordering demonstrations (Qsort function)\<close>

subsection \<open>Comparators\<close>

text \<open>
  A C \<open>int\<close> is a 32-bit word read in two's complement by \<open>sint\<close>. The comparators
  receive pointers to two elements and subtract the values behind them; the model passes
  the values. Subtraction on words wraps around: where the mathematical difference does
  not fit an \<open>int\<close> (undefined in ISO C) the model yields the two's complement result.
\<close>

type_synonym c_int = "32 word"

definition cmp_int :: "c_int \<Rightarrow> c_int \<Rightarrow> c_int" where
  "cmp_int a b = a - b"

definition cmp_int_desc :: "c_int \<Rightarrow> c_int \<Rightarrow> c_int" where
  "cmp_int_desc a b = b - a"

text \<open>
  In \<open>*(char*)a - *(char*)b\<close> both operands are promoted to \<open>int\<close> first. Whether plain
  \<open>char\<close> is signed depends on the platform, so it is a parameter: a signed \<open>char\<close> with
  the top bit set promotes to a negative \<open>int\<close>.
\<close>

definition promote :: "bool \<Rightarrow> char \<Rightarrow> c_int" where
  "promote signed_char c =
     (if signed_char \<and> 128 \<le> (of_char c :: nat) then of_nat (of_char c) - 256
      else of_nat (of_char c))"

definition cmp_char_asc :: "bool \<Rightarrow> char \<Rightarrow> char \<Rightarrow> c_int" where
  "cmp_char_asc signed_char a b = promote signed_char a - promote signed_char b"

definition cmp_char_desc :: "bool \<Rightarrow> char \<Rightarrow> char \<Rightarrow> c_int" where
  "cmp_char_desc signed_char a b = promote signed_char b - promote signed_char a"

subsection \<open>Output\<close>

text \<open>\<open>printf("%d ", x)\<close>: the decimal digits of \<open>x\<close>, a minus sign first when negative.\<close>

definition digit :: "nat \<Rightarrow> char" where
  "digit d = ''0123456789'' ! d"

function digits :: "nat \<Rightarrow> string" where
  "digits n = (if n < 10 then [digit n] else digits (n div 10) @ [digit (n mod 10)])"
  by pat_completeness auto
termination
  by (relation "measure id") auto

declare digits.simps [simp del]

definition printf_d :: "c_int \<Rightarrow> string" where
  "printf_d x =
     (if sint x < 0 then CHR ''-'' # digits (nat (- sint x)) else digits (nat (sint x))) @ '' ''"

text \<open>\<open>printf("%c ", c)\<close>: the byte itself, then a space.\<close>

definition printf_c :: "char \<Rightarrow> string" where
  "printf_c c = [c, CHR '' '']"

text \<open>
  Lines 14 and 15 of each demonstration: \<open>for (int i = 0; i < n; i++) printf(fmt, arr[i]);\<close>
  with standard output threaded through as \<open>out\<close>. Reading past the end of the array
  is undefined in C; the loop then yields no output (\<open>None\<close>).
\<close>

function print_loop ::
  "('a \<Rightarrow> string) \<Rightarrow> 'a list \<Rightarrow> nat \<Rightarrow> nat \<Rightarrow> string \<Rightarrow> string option" where
  "print_loop fmt arr n i out =
     (if i < n then
        (if i < length arr then print_loop fmt arr n (i + 1) (out @ fmt (arr ! i)) else None)
      else Some out)"
  by pat_completeness auto
termination
  by (relation "measure (\<lambda>(fmt, arr, n, i, out). n - i)") auto

declare print_loop.simps [simp del]

subsection \<open>The library sort\<close>

text \<open>
  A comparator defines a total ordering on a set of elements when its results are
  consistent with one another: swapping the arguments flips the sign, and "not greater"
  is transitive.
\<close>

definition total_ordering :: "('a \<Rightarrow> 'a \<Rightarrow> c_int) \<Rightarrow> 'a set \<Rightarrow> bool" where
  "total_ordering cmp A \<longleftrightarrow>
     (\<forall>a\<in>A. \<forall>b\<in>A. sgn (sint (cmp a b)) = - sgn (sint (cmp b a))) \<and>
     (\<forall>a\<in>A. \<forall>b\<in>A. \<forall>c\<in>A.
        sint (cmp a b) \<le> 0 \<and> sint (cmp b c) \<le> 0 \<longrightarrow> sint (cmp a c) \<le> 0)"

text \<open>Every adjacent pair is less-or-equal under the comparator.\<close>

definition in_order :: "('a \<Rightarrow> 'a \<Rightarrow> c_int) \<Rightarrow> 'a list \<Rightarrow> bool" where
  "in_order cmp ys \<longleftrightarrow> successively (\<lambda>a b. sint (cmp a b) \<le> 0) ys"

text \<open>
  Modelled from the spec: \<open>qsort\<close> is the C library's and is not part of the repository;
  the demonstrations only call it. The spec gives its contract: "rearrange sequence in
  place such that for every adjacent pair \<open>(sequence[i], sequence[i+1])\<close>,
  \<open>comparator(sequence[i], sequence[i+1])\<close> is less-or-equal", "sorting permutes, never
  drops or invents elements", and stability "is NOT guaranteed". The sort is therefore
  a parameter \<open>qsort arr n width cmp\<close> of each demonstration (the array, the number of
  elements to sort, the size of an element in bytes, the comparator; the result is the
  array after the call), and \<open>qsort_contract\<close> is all that is assumed of it: whenever
  the comparator defines a total ordering on the first \<open>n\<close> elements, these are permuted
  into order and the rest of the array is left alone.
\<close>

definition qsort_contract ::
  "nat \<Rightarrow> ('a list \<Rightarrow> nat \<Rightarrow> nat \<Rightarrow> ('a \<Rightarrow> 'a \<Rightarrow> c_int) \<Rightarrow> 'a list) \<Rightarrow> bool" where
  "qsort_contract width qsort \<longleftrightarrow>
     (\<forall>arr n cmp.
        n \<le> length arr \<and> total_ordering cmp (set (take n arr)) \<longrightarrow>
          length (qsort arr n width cmp) = length arr \<and>
          drop n (qsort arr n width cmp) = drop n arr \<and>
          mset (take n (qsort arr n width cmp)) = mset (take n arr) \<and>
          in_order cmp (take n (qsort arr n width cmp)))"

text \<open>
  One sort that keeps the contract, an insertion sort driven by the comparator. It shows
  that the contract can be met and gives the demonstrations something to run with.
\<close>

fun insert_by :: "('a \<Rightarrow> 'a \<Rightarrow> c_int) \<Rightarrow> 'a \<Rightarrow> 'a list \<Rightarrow> 'a list" where
  "insert_by cmp x [] = [x]"
| "insert_by cmp x (y # ys) =
     (if sint (cmp x y) \<le> 0 then x # y # ys else y # insert_by cmp x ys)"

definition insertion_qsort ::
  "'a list \<Rightarrow> nat \<Rightarrow> nat \<Rightarrow> ('a \<Rightarrow> 'a \<Rightarrow> c_int) \<Rightarrow> 'a list" where
  "insertion_qsort arr n width cmp = foldr (insert_by cmp) (take n arr) [] @ drop n arr"

subsection \<open>The four programs\<close>

text \<open>
  The four \<open>main\<close> functions are one text up to the array initialiser, the element size,
  the comparator and the \<open>printf\<close> format (lines 10 to 18):
  \<open>n = sizeof(arr) / sizeof(arr[0])\<close> is the number of elements of the array, \<open>qsort\<close>
  sorts the array in place, the loop prints it, \<open>printf("\n")\<close> ends the line and
  \<open>main\<close> returns 0. The result is what was written to standard output and the exit
  status.
\<close>

definition order_and_render ::
  "('a list \<Rightarrow> nat \<Rightarrow> nat \<Rightarrow> ('a \<Rightarrow> 'a \<Rightarrow> c_int) \<Rightarrow> 'a list) \<Rightarrow> nat \<Rightarrow>
   ('a \<Rightarrow> 'a \<Rightarrow> c_int) \<Rightarrow> ('a \<Rightarrow> string) \<Rightarrow> 'a list \<Rightarrow> (string \<times> int) option" where
  "order_and_render qsort width cmp fmt arr =
     (let n = length arr;
          arr' = qsort arr n width cmp
      in case print_loop fmt arr' n 0 [] of
           None \<Rightarrow> None
         | Some out \<Rightarrow> Some (out @ [CHR 0x0A], 0))"

text \<open>a) integers/AscendingOrder.c, with \<open>sizeof(int) = 4\<close>.\<close>

definition main_int_asc ::
  "(c_int list \<Rightarrow> nat \<Rightarrow> nat \<Rightarrow> (c_int \<Rightarrow> c_int \<Rightarrow> c_int) \<Rightarrow> c_int list) \<Rightarrow>
   (string \<times> int) option" where
  "main_int_asc qsort = order_and_render qsort 4 cmp_int printf_d [5, 2, 9, 1, 5, 6]"

text \<open>a) integers/DescendingOrder.c.\<close>

definition main_int_desc ::
  "(c_int list \<Rightarrow> nat \<Rightarrow> nat \<Rightarrow> (c_int \<Rightarrow> c_int \<Rightarrow> c_int) \<Rightarrow> c_int list) \<Rightarrow>
   (string \<times> int) option" where
  "main_int_desc qsort = order_and_render qsort 4 cmp_int_desc printf_d [5, 2, 9, 1, 5, 6]"

text \<open>
  b) charcters/AscendingOrder.c: \<open>char arr[] = "salam"\<close> is an array of six bytes, the
  five letters and the terminator of the literal.
\<close>

definition main_char_asc ::
  "bool \<Rightarrow> (char list \<Rightarrow> nat \<Rightarrow> nat \<Rightarrow> (char \<Rightarrow> char \<Rightarrow> c_int) \<Rightarrow> char list) \<Rightarrow>
   (string \<times> int) option" where
  "main_char_asc signed_char qsort =
     order_and_render qsort 1 (cmp_char_asc signed_char) printf_c (''salam'' @ [CHR 0x00])"

text \<open>b) charcters/DescendingOrder.c: \<open>char arr[] = {'z', 'a', 'q', 'm', 'b'}\<close>.\<close>

definition main_char_desc ::
  "bool \<Rightarrow> (char list \<Rightarrow> nat \<Rightarrow> nat \<Rightarrow> (char \<Rightarrow> char \<Rightarrow> c_int) \<Rightarrow> char list) \<Rightarrow>
   (string \<times> int) option" where
  "main_char_desc signed_char qsort =
     order_and_render qsort 1 (cmp_char_desc signed_char) printf_c ''zaqmb''"

subsection \<open>Notions used in the statements\<close>

text \<open>
  The comparator is exact on a set when the sign of its result is the sign of the
  difference of the keys, for all pairs of the set.
\<close>

definition exact_on :: "('a \<Rightarrow> 'a \<Rightarrow> c_int) \<Rightarrow> ('a \<Rightarrow> int) \<Rightarrow> 'a set \<Rightarrow> bool" where
  "exact_on cmp key A \<longleftrightarrow> (\<forall>a\<in>A. \<forall>b\<in>A. sgn (sint (cmp a b)) = sgn (key a - key b))"

text \<open>The line a demonstration prints for the elements \<open>ys\<close>.\<close>

definition render :: "('a \<Rightarrow> string) \<Rightarrow> 'a list \<Rightarrow> string" where
  "render fmt ys = concat (map fmt ys) @ [CHR 0x0A]"

section \<open>Properties of the string duplicator\<close>

subsection \<open>Strings in memory\<close>

lemma c_string_iff:
  "c_string h s bs \<longleftrightarrow>
     CHR 0x00 \<notin> set bs \<and> (\<forall>i\<le>length bs. cells h (s + i) = Some ((bs @ [CHR 0x00]) ! i))"
  unfolding c_string_def list_eq_iff_nth_eq
  by (auto simp: less_Suc_eq_le nth_append)

lemma c_string_nth: "c_string h s bs \<Longrightarrow> i < length bs \<Longrightarrow> cells h (s + i) = Some (bs ! i) \<and> bs ! i \<noteq> CHR 0x00"
proof -
  assume a: "c_string h s bs" "i < length bs"
  then have "bs ! i \<in> set bs" by simp
  moreover from a have "CHR 0x00 \<notin> set bs" by (simp add: c_string_def)
  ultimately have "bs ! i \<noteq> CHR 0x00" by metis
  with a show ?thesis by (simp add: c_string_iff nth_append)
qed

lemma c_string_end: "c_string h s bs \<Longrightarrow> cells h (s + length bs) = Some (CHR 0x00)"
  by (auto simp add: c_string_iff nth_append)

lemma scan_step:
  "cells h (s + len) = Some c \<Longrightarrow> c \<noteq> CHR 0x00 \<Longrightarrow> len < INT_MAX \<Longrightarrow>
   scan s len h = scan s (len + 1) (h\<lparr>trace := Read (s + len) # trace h\<rparr>)"
  by (subst scan.simps) (simp add: load_def)

lemma scan_stop:
  "cells h (s + len) = Some (CHR 0x00) \<Longrightarrow>
   scan s len h = (Inr len, h\<lparr>trace := Read (s + len) # trace h\<rparr>)"
  by (subst scan.simps) (simp add: load_def)

lemma scan_overflow:
  "cells h (s + len) = Some c \<Longrightarrow> c \<noteq> CHR 0x00 \<Longrightarrow> INT_MAX \<le> len \<Longrightarrow>
   scan s len h = (Inl Signed_Overflow, h\<lparr>trace := Read (s + len) # trace h\<rparr>)"
  by (subst scan.simps) (simp add: load_def)

lemma scan_string_end:
  assumes "c_string h s bs" and "length bs \<le> INT_MAX"
  shows "scan s (length bs) h =
           (if length bs \<le> INT_MAX then Inr (length bs) else Inl Signed_Overflow,
            h\<lparr>trace := rev (map Read [s + length bs..<s + min (length bs) INT_MAX + 1]) @ trace h\<rparr>)"
proof -
  have "min (length bs) INT_MAX = length bs" using assms(2) by simp
  then show ?thesis
  using c_string_end [OF assms(1)] assms(2) 
      by (simp add: scan_stop)
qed

lemma scan_string_ovf:
  assumes "c_string h s bs" and "INT_MAX < length bs"
  shows "scan s INT_MAX h =
           (if length bs \<le> INT_MAX then Inr (length bs) else Inl Signed_Overflow,
            h\<lparr>trace := rev (map Read [s + INT_MAX..<s + min (length bs) INT_MAX + 1]) @ trace h\<rparr>)"
proof -
  have "min (length bs) INT_MAX = INT_MAX" using assms(2) by simp
  then show ?thesis
      using c_string_nth [OF assms] assms(2)
      by (simp add: scan_overflow)
qed

lemma upt_head: "a < b \<Longrightarrow> [a..<b] = a # [a + 1..<b]"
  by (simp add: upt_conv_Cons)

lemma scan_string:
  assumes "c_string h s bs" and "len \<le> length bs" and "len \<le> INT_MAX"
  shows "scan s len h =
           (if length bs \<le> INT_MAX then Inr (length bs) else Inl Signed_Overflow,
            h\<lparr>trace := rev (map Read [s + len..<s + min (length bs) INT_MAX + 1]) @ trace h\<rparr>)"
  using assms
proof (induction "min (length bs) INT_MAX - len" arbitrary: len h)
  case 0
  then have len: "len = min (length bs) INT_MAX" by simp
  show ?case
  proof (cases "length bs \<le> INT_MAX")
    case True
    with len have l: "len = length bs" by simp
    show ?thesis
      unfolding l using "0.prems"(1) True by (rule scan_string_end)
  next
    case False
    with len have l: "len = INT_MAX" "INT_MAX < length bs" by simp_all
    show ?thesis
      unfolding l(1) using "0.prems"(1) l(2) by (rule scan_string_ovf)
  qed
next
  case (Suc k)
  then have lt: "len < length bs" "len < INT_MAX" by simp_all
  let ?m = "min (length bs) INT_MAX"
  let ?h = "h\<lparr>trace := Read (s + len) # trace h\<rparr>"
  have 1: "scan s len h = scan s (len + 1) ?h"
    using c_string_nth [OF Suc.prems(1) lt(1)] lt(2) by (simp add: scan_step)
  have 2: "scan s (len + 1) ?h = (if length bs \<le> INT_MAX then Inr (length bs) else Inl Signed_Overflow,
            ?h\<lparr>trace := rev (map Read [s + (len + 1)..<s + ?m + 1]) @ trace ?h\<rparr>)"
  proof (rule Suc.hyps(1))
    show "k = ?m - (len + 1)" using Suc.hyps(2) by simp
    show "c_string ?h s bs" using Suc.prems(1) by (simp add: c_string_def)
    show "len + 1 \<le> length bs" "len + 1 \<le> INT_MAX" using lt by simp_all
  qed
  have "s + len < s + ?m + 1" using lt by simp
  then have 3: "[s + len..<s + ?m + 1] = (s + len) # [s + (len + 1)..<s + ?m + 1]"
    using upt_head [of "s + len" "s + ?m + 1"] by (simp only: add.assoc)
  show ?case unfolding 1 2 3 by simp
qed

subsection \<open>The copy loop\<close>

lemma c_string_upd_outside:
  assumes "c_string h s bs" and "\<forall>k\<le>length bs. a \<noteq> s + k"
  shows "c_string (h\<lparr>cells := (cells h)(a \<mapsto> c), trace := t\<rparr>) s bs"
  using assms by (auto simp add: c_string_iff)

lemma copy_loop_step:
  "cells h (s + i) = Some c \<Longrightarrow> cells h (copy + i) \<noteq> None \<Longrightarrow> i \<le> len \<Longrightarrow>
   copy_loop copy s len i h =
     copy_loop copy s len (i + 1)
       (h\<lparr>cells := (cells h)(copy + i \<mapsto> c), trace := Write (copy + i) # Read (s + i) # trace h\<rparr>)"
  by (subst copy_loop.simps) (auto simp add: load_def store_def)

lemma copy_loop_done: "len < i \<Longrightarrow> copy_loop copy s len i h = (Inr (), h)"
  by (subst copy_loop.simps) simp

lemma copy_loop_string:
  assumes "c_string h s bs"
    and "\<forall>j\<le>length bs. cells h (copy + j) \<noteq> None"
    and "\<forall>j\<le>length bs. \<forall>k\<le>length bs. copy + j \<noteq> s + k"
    and "i \<le> length bs + 1"
  shows "\<exists>h'. copy_loop copy s (length bs) i h = (Inr (), h') \<and>
           cells h' = (\<lambda>a. if copy + i \<le> a \<and> a \<le> copy + length bs
                            then Some ((bs @ [CHR 0x00]) ! (a - copy)) else cells h a) \<and>
           trace h' =
             rev (concat (map (\<lambda>j. [Read (s + j), Write (copy + j)]) [i..<length bs + 1])) @ trace h"
  using assms
proof (induction "length bs + 1 - i" arbitrary: i h)
  case 0
  then have "length bs < i" by simp
  then show ?case by (auto simp add: copy_loop_done fun_eq_iff)
next
  case (Suc n)
  then have le: "i \<le> length bs" by simp
  let ?c = "(bs @ [CHR 0x00]) ! i"
  let ?h = "h\<lparr>cells := (cells h)(copy + i \<mapsto> ?c), trace := Write (copy + i) # Read (s + i) # trace h\<rparr>"
  have src: "cells h (s + i) = Some ?c"
    using Suc.prems(1) le by (simp add: c_string_iff)
  have 1: "copy_loop copy s (length bs) i h = copy_loop copy s (length bs) (i + 1) ?h"
    using src Suc.prems(2) le by (simp add: copy_loop_step)
  have "\<exists>h'. copy_loop copy s (length bs) (i + 1) ?h = (Inr (), h') \<and>
           cells h' = (\<lambda>a. if copy + (i + 1) \<le> a \<and> a \<le> copy + length bs
                            then Some ((bs @ [CHR 0x00]) ! (a - copy)) else cells ?h a) \<and>
           trace h' =
             rev (concat (map (\<lambda>j. [Read (s + j), Write (copy + j)]) [i + 1..<length bs + 1])) @ trace ?h"
  proof (rule Suc.hyps(1))
    show "n = length bs + 1 - (i + 1)" using Suc.hyps(2) by simp
    show "c_string ?h s bs"
      using Suc.prems(1,3) le by (intro c_string_upd_outside) auto
    show "\<forall>j\<le>length bs. cells ?h (copy + j) \<noteq> None"
      using Suc.prems(2) by simp
    show "\<forall>j\<le>length bs. \<forall>k\<le>length bs. copy + j \<noteq> s + k" by (rule Suc.prems(3))
    show "i + 1 \<le> length bs + 1" using le by simp
  qed
  then obtain h' where h': "copy_loop copy s (length bs) (i + 1) ?h = (Inr (), h')"
    "cells h' = (\<lambda>a. if copy + (i + 1) \<le> a \<and> a \<le> copy + length bs
                            then Some ((bs @ [CHR 0x00]) ! (a - copy)) else cells ?h a)"
    "trace h' =
             rev (concat (map (\<lambda>j. [Read (s + j), Write (copy + j)]) [i + 1..<length bs + 1])) @ trace ?h"
    by blast
  have 3: "[i..<length bs + 1] = i # [i + 1..<length bs + 1]"
    using le by (intro upt_head) simp
  have "cells h' = (\<lambda>a. if copy + i \<le> a \<and> a \<le> copy + length bs
                            then Some ((bs @ [CHR 0x00]) ! (a - copy)) else cells h a)"
    unfolding h'(2) using le by (auto simp add: fun_eq_iff)
  moreover have "trace h' =
             rev (concat (map (\<lambda>j. [Read (s + j), Write (copy + j)]) [i..<length bs + 1])) @ trace h"
    unfolding h'(3) 3 by simp
  ultimately show ?case unfolding 1 h'(1) by blast
qed

subsection \<open>The allocator and the three ways a call on a string can end\<close>

lemma block_free_iff: "block_free h p n \<longleftrightarrow> (\<forall>a. p \<le> a \<and> a < p + n \<longrightarrow> cells h a = None)"
  by (auto simp add: block_free_def list_all_iff)

lemma malloc_Some_iff:
  "fst (malloc env n h) = Some p \<longleftrightarrow> (\<exists>junk. env = Some (p, junk)) \<and> block_free h p n"
  by (auto simp add: malloc_def split: option.splits)

lemma malloc_trace_irrelevant: "fst (malloc env n (h\<lparr>trace := t\<rparr>)) = fst (malloc env n h)"
  by (simp add: malloc_def block_free_def split: option.splits)

lemma malloc_fails:
  "fst (malloc env n h) = None \<Longrightarrow> malloc env n h = (None, h\<lparr>trace := Alloc n None # trace h\<rparr>)"
  by (auto simp add: malloc_def split: option.splits if_splits)

lemma performed_append: "trace h' = evs @ trace h \<Longrightarrow> performed h h' = evs"
  by (simp add: performed_def)

lemma my_strdup_overflow:
  assumes "c_string h s bs" and "INT_MAX \<le> length bs"
  shows "my_strdup env (Some s) h = (Inl Signed_Overflow, h\<lparr>trace := scan_reads s (length bs) @ trace h\<rparr>)"
  using scan_string [OF assms(1), of 0] assms(2)
  by (simp add: my_strdup_def scan_reads_def)

lemma my_strdup_refused:
  assumes "c_string h s bs" and "length bs < INT_MAX"
    and "fst (malloc env (length bs + 1) h) = None"
  shows "my_strdup env (Some s) h =
           (Inr None, h\<lparr>trace := Alloc (length bs + 1) None # scan_reads s (length bs) @ trace h\<rparr>)"
proof -
  let ?h1 = "h\<lparr>trace := scan_reads s (length bs) @ trace h\<rparr>"
  have 1: "scan s 0 h = (Inr (length bs), ?h1)"
    using scan_string [OF assms(1), of 0] assms(2) by (simp add: scan_reads_def)
  have "fst (malloc env (length bs + 1) ?h1) = None"
    using assms(3) by (simp only: malloc_trace_irrelevant)
  then have 2: "malloc env (length bs + 1) ?h1 = (None, ?h1\<lparr>trace := Alloc (length bs + 1) None # trace ?h1\<rparr>)"
    by (rule malloc_fails)
  show ?thesis
    using assms(2) 1 2 by (simp add: my_strdup_def)
qed

lemma my_strdup_granted:
  assumes "c_string h s bs" and "length bs < INT_MAX"
    and "fst (malloc env (length bs + 1) h) = Some p"
  shows "\<exists>h'. my_strdup env (Some s) h = (Inr (Some p), h') \<and>
           cells h' = (\<lambda>a. if p \<le> a \<and> a \<le> p + length bs
                            then Some ((bs @ [CHR 0x00]) ! (a - p)) else cells h a) \<and>
           trace h' = copy_events p s (length bs) @ Alloc (length bs + 1) (Some p) #
                        scan_reads s (length bs) @ trace h"
proof -
  let ?n = "length bs"
  let ?h1 = "h\<lparr>trace := scan_reads s ?n @ trace h\<rparr>"
  from assms(3) obtain junk where env: "env = Some (p, junk)" and free: "block_free h p (?n + 1)"
    by (auto simp add: malloc_Some_iff)
  let ?h2 = "?h1\<lparr>cells := (\<lambda>a. if p \<le> a \<and> a < p + (?n + 1) then Some (junk a) else cells ?h1 a),
                  trace := Alloc (?n + 1) (Some p) # trace ?h1\<rparr>"
  have 1: "scan s 0 h = (Inr ?n, ?h1)"
    using scan_string [OF assms(1), of 0] assms(2) by (simp add: scan_reads_def)
  have 2: "malloc env (?n + 1) ?h1 = (Some p, ?h2)"
    using free by (simp add: malloc_def env block_free_def)
  have src: "\<forall>k\<le>?n. cells h (s + k) \<noteq> None"
    using assms(1) by (simp add: c_string_iff)
  have disj: "\<forall>j\<le>?n. \<forall>k\<le>?n. p + j \<noteq> s + k"
  proof (intro allI impI)
    fix j k assume "j \<le> ?n" "k \<le> ?n"
    then have "cells h (p + j) = None" "cells h (s + k) \<noteq> None"
      using free src by (simp_all add: block_free_iff)
    then show "p + j \<noteq> s + k" by metis
  qed
  have str2: "c_string ?h2 s bs"
  proof -
    have "\<forall>i\<le>?n. \<not> (p \<le> s + i \<and> s + i < p + (?n + 1))"
    proof (intro allI impI notI)
      fix i assume i: "i \<le> ?n" and "p \<le> s + i \<and> s + i < p + (?n + 1)"
      then have "p + (s + i - p) = s + i" "s + i - p \<le> ?n" by auto
      with disj i show False by metis
    qed
    with assms(1) show ?thesis by (auto simp add: c_string_iff)
  qed
  have live2: "\<forall>j\<le>?n. cells ?h2 (p + j) \<noteq> None" by simp
  from copy_loop_string [OF str2 live2 disj, of 0]
  obtain h' where h': "copy_loop p s ?n 0 ?h2 = (Inr (), h')"
    "cells h' = (\<lambda>a. if p + 0 \<le> a \<and> a \<le> p + ?n
                            then Some ((bs @ [CHR 0x00]) ! (a - p)) else cells ?h2 a)"
    "trace h' = rev (concat (map (\<lambda>j. [Read (s + j), Write (p + j)]) [0..<?n + 1])) @ trace ?h2"
    by auto
  have 3: "my_strdup env (Some s) h = (Inr (Some p), h')"
    using assms(2) 1 2 h'(1) by (simp add: my_strdup_def)
  have 4: "cells h' = (\<lambda>a. if p \<le> a \<and> a \<le> p + ?n
                            then Some ((bs @ [CHR 0x00]) ! (a - p)) else cells h a)"
    unfolding h'(2) by (auto simp add: fun_eq_iff)
  have 5: "trace h' = copy_events p s ?n @ Alloc (?n + 1) (Some p) # scan_reads s ?n @ trace h"
    unfolding h'(3) copy_events_def by simp
  from 3 4 5 show ?thesis by blast
qed

subsection \<open>The claims\<close>

text \<open>
  C2. \<open>my_strdup(NULL)\<close> returns \<open>NULL\<close> and is a no-op: the state after the call is the
  state before it, bytes and recorded operations alike, so nothing was scanned,
  allocated or copied, and no fault is reported.
\<close>

theorem my_strdup_null: "my_strdup env None h = (Inr None, h)"
  by (simp add: my_strdup_def)

lemma hi_heap_string: "c_string hi_heap 10 ''hi''"
  by (simp add: c_string_def hi_heap_def)

lemma hi_heap_short: "length ''hi'' < INT_MAX"
  by (simp add: INT_MAX_def)

lemma set_scan_reads: "Read a \<in> set (scan_reads s n) \<Longrightarrow> s \<le> a \<and> a \<le> s + n"
  by (auto simp add: scan_reads_def)

lemma scan_reads_no_write: "Write a \<notin> set (scan_reads s n)"
  by (auto simp add: scan_reads_def)

lemma scan_reads_no_alloc: "Alloc n r \<notin> set (scan_reads s m)"
  by (auto simp add: scan_reads_def)

lemma set_copy_events_read: "Read a \<in> set (copy_events p s n) \<Longrightarrow> s \<le> a \<and> a \<le> s + n"
  by (auto simp add: copy_events_def)

lemma set_copy_events_write: "Write a \<in> set (copy_events p s n) \<Longrightarrow> p \<le> a \<and> a \<le> p + n"
  by (auto simp add: copy_events_def)

lemma copy_events_no_alloc: "Alloc n r \<notin> set (copy_events p s m)"
  by (auto simp add: copy_events_def)

text \<open>
  C1, as amended. For every string \<open>bs\<close> of fewer than \<open>INT_MAX\<close> bytes stored at \<open>s\<close>,
  if the allocation succeeds with block \<open>p\<close>, then \<open>my_strdup\<close> returns \<open>p\<close> (not \<open>NULL\<close>),
  and afterwards \<open>p\<close> holds the same string: the same bytes in the same order, hence the
  same length, with the terminator at position \<open>length bs\<close>. The source still holds
  \<open>bs\<close>. The two ranges of \<open>length bs + 1\<close> bytes share no address, so a store into any
  byte of the copy succeeds and leaves the source string as it was, and a store into any
  byte of the source leaves the copy as it was.
\<close>

theorem my_strdup_copies:
  assumes "c_string h s bs" and "length bs < INT_MAX"
    and "fst (malloc env (length bs + 1) h) = Some p"
  shows "\<exists>h'. my_strdup env (Some s) h = (Inr (Some p), h') \<and>
           c_string h' p bs \<and> c_string h' s bs \<and>
           (\<forall>i\<le>length bs. \<forall>j\<le>length bs. p + i \<noteq> s + j) \<and>
           (\<forall>i\<le>length bs. \<forall>c. \<exists>h''. store (p + i) c h' = (Inr (), h'') \<and> c_string h'' s bs) \<and>
           (\<forall>i\<le>length bs. \<forall>c. \<exists>h''. store (s + i) c h' = (Inr (), h'') \<and> c_string h'' p bs)"
proof -
  let ?n = "length bs"
  from my_strdup_granted [OF assms] obtain h' where
    run: "my_strdup env (Some s) h = (Inr (Some p), h')" and
    cells: "cells h' = (\<lambda>a. if p \<le> a \<and> a \<le> p + ?n
                            then Some ((bs @ [CHR 0x00]) ! (a - p)) else cells h a)"
    by blast
  from assms(1) have nz: "CHR 0x00 \<notin> set bs" by (simp add: c_string_def)
  from assms(3) have free: "block_free h p (?n + 1)" by (simp add: malloc_Some_iff)
  have disj: "p + i \<noteq> s + j" if "i \<le> ?n" "j \<le> ?n" for i j
  proof -
    from that have "cells h (p + i) = None" "cells h (s + j) \<noteq> None"
      using free assms(1) by (simp_all add: block_free_iff c_string_iff)
    then show ?thesis by metis
  qed
  have out: "\<not> (p \<le> s + j \<and> s + j \<le> p + ?n)" if "j \<le> ?n" for j
  proof
    assume "p \<le> s + j \<and> s + j \<le> p + ?n"
    then have "p + (s + j - p) = s + j" "s + j - p \<le> ?n" by auto
    with disj [OF this(2) that] show False by simp
  qed
  have copy: "c_string h' p bs"
    using nz by (simp add: c_string_iff cells)
  have orig: "c_string h' s bs"
    using assms(1) out by (auto simp add: c_string_iff cells)
  have w1: "\<exists>h''. store (p + i) c h' = (Inr (), h'') \<and> c_string h'' s bs" if "i \<le> ?n" for i c
  proof -
    have "\<forall>k\<le>?n. p + i \<noteq> s + k" using disj that by blast
    from c_string_upd_outside [OF orig this] that show ?thesis
      by (simp add: store_def cells)
  qed
  have w2: "\<exists>h''. store (s + i) c h' = (Inr (), h'') \<and> c_string h'' p bs" if "i \<le> ?n" for i c
  proof -
    have "\<forall>k\<le>?n. s + i \<noteq> p + k" using disj that by metis
    from c_string_upd_outside [OF copy this] that orig show ?thesis
      by (auto simp add: store_def c_string_iff split: option.splits)
  qed
  from run copy orig disj w1 w2 show ?thesis by blast
qed

text \<open>
  The hypotheses of C1 hold for \<open>"hi"\<close> at address 10 and a block offered at address 20.
\<close>

theorem my_strdup_copies_witness:
  "c_string hi_heap 10 ''hi'' \<and> length ''hi'' < INT_MAX \<and>
   fst (malloc (Some (20, \<lambda>a. CHR ''?'')) (length ''hi'' + 1) hi_heap) = Some 20 \<and>
   (\<exists>h'. my_strdup (Some (20, \<lambda>a. CHR ''?'')) (Some 10) hi_heap = (Inr (Some 20), h') \<and>
         c_string h' 20 ''hi'' \<and> c_string h' 10 ''hi'')"
proof -
  have m: "fst (malloc (Some (20, \<lambda>a. CHR ''?'')) (length ''hi'' + 1) hi_heap) = Some 20"
    by (simp add: malloc_def block_free_def hi_heap_def)
  from my_strdup_copies [OF hi_heap_string hi_heap_short m]
  show ?thesis using hi_heap_string hi_heap_short m by blast
qed

text \<open>
  C1 as stated, without the proviso on the allocation, is false: on the string \<open>"hi"\<close>
  with an allocator that refuses, \<open>my_strdup\<close> returns \<open>NULL\<close>.
\<close>

theorem my_strdup_not_always_nonnull:
  "c_string hi_heap 10 ''hi'' \<and> fst (my_strdup None (Some 10) hi_heap) = Inr None"
proof -
  have "fst (malloc None (length ''hi'' + 1) hi_heap) = None"
    by (simp add: malloc_def)
  from my_strdup_refused [OF hi_heap_string hi_heap_short this]
  show ?thesis using hi_heap_string by simp
qed

text \<open>
  C3. If a call of \<open>my_strdup\<close> on a string performs an allocation that fails (the run
  records \<open>Alloc n None\<close>), the call returns \<open>NULL\<close> without a fault, and this return value
  is the very value that \<open>my_strdup(NULL)\<close> returns, in any state and with any allocator:
  the return value alone does not tell the two cases apart.
\<close>

theorem my_strdup_alloc_failure:
  assumes "c_string h s bs" and "my_strdup env (Some s) h = (r, h')"
    and "Alloc n None \<in> set (performed h h')"
  shows "r = Inr None \<and> r = fst (my_strdup env' None h0)"
proof (cases "length bs < INT_MAX")
  case False
  with my_strdup_overflow [OF assms(1), of env] assms(2)
  have "trace h' = scan_reads s (length bs) @ trace h" by auto
  then have "performed h h' = scan_reads s (length bs)" by (rule performed_append)
  with assms(3) show ?thesis by (simp add: scan_reads_no_alloc)
next
  case short: True
  show ?thesis
  proof (cases "fst (malloc env (length bs + 1) h)")
    case None
    from my_strdup_refused [OF assms(1) short None] assms(2)
    show ?thesis by (simp add: my_strdup_def)
  next
    case (Some p)
    from my_strdup_granted [OF assms(1) short Some] assms(2)
    have "trace h' = (copy_events p s (length bs) @ Alloc (length bs + 1) (Some p) #
                        scan_reads s (length bs)) @ trace h" by auto
    then have "performed h h' = copy_events p s (length bs) @ Alloc (length bs + 1) (Some p) #
                        scan_reads s (length bs)" by (rule performed_append)
    with assms(3) show ?thesis by (simp add: scan_reads_no_alloc copy_events_no_alloc)
  qed
qed

text \<open>
  The hypotheses of C3 hold for \<open>"hi"\<close> and an allocator that refuses.
\<close>

theorem my_strdup_alloc_failure_witness:
  "c_string hi_heap 10 ''hi'' \<and>
   Alloc 3 None \<in> set (performed hi_heap (snd (my_strdup None (Some 10) hi_heap))) \<and>
   fst (my_strdup None (Some 10) hi_heap) = Inr None \<and>
   fst (my_strdup None (Some 10) hi_heap) = fst (my_strdup None None hi_heap)"
proof -
  have "fst (malloc None (length ''hi'' + 1) hi_heap) = None"
    by (simp add: malloc_def)
  from my_strdup_refused [OF hi_heap_string hi_heap_short this]
  have "trace (snd (my_strdup None (Some 10) hi_heap)) =
          (Alloc (length ''hi'' + 1) None # scan_reads 10 (length ''hi'')) @ trace hi_heap"
    by simp
  then have "performed hi_heap (snd (my_strdup None (Some 10) hi_heap)) =
          Alloc (length ''hi'' + 1) None # scan_reads 10 (length ''hi'')"
    by (rule performed_append)
  then have p: "Alloc 3 None \<in> set (performed hi_heap (snd (my_strdup None (Some 10) hi_heap)))"
    by simp
  from my_strdup_alloc_failure [OF hi_heap_string prod.collapse [symmetric] p]
  have "fst (my_strdup None (Some 10) hi_heap) = Inr None"
    and "fst (my_strdup None (Some 10) hi_heap) = fst (my_strdup None None hi_heap)"
    by blast+
  with hi_heap_string p show ?thesis by blast
qed

text \<open>
  C10. A call of \<open>my_strdup\<close> on a string \<open>bs\<close> at \<open>s\<close>, however it ends (a copy, \<open>NULL\<close>
  after a failed allocation, or the overflow of the counter on a string of \<open>INT_MAX\<close>
  bytes or more), leaves the string intact: \<open>s\<close> still holds \<open>bs\<close> and its terminator. More
  generally every byte that was live before the call keeps its value. The call reads
  only bytes \<open>s[0..length bs]\<close>, and every byte it writes was not live before the call and
  lies in the block \<open>p[0..length bs]\<close> that the call returns.
\<close>

theorem my_strdup_frame:
  assumes "c_string h s bs" and "my_strdup env (Some s) h = (r, h')"
  shows "c_string h' s bs \<and>
         (\<forall>a. cells h a \<noteq> None \<longrightarrow> cells h' a = cells h a) \<and>
         (\<forall>a. Read a \<in> set (performed h h') \<longrightarrow> s \<le> a \<and> a \<le> s + length bs) \<and>
         (\<forall>a. Write a \<in> set (performed h h') \<longrightarrow>
               cells h a = None \<and> (\<exists>p. r = Inr (Some p) \<and> p \<le> a \<and> a \<le> p + length bs))"
proof (cases "length bs < INT_MAX")
  case False
  with my_strdup_overflow [OF assms(1), of env] assms(2)
  have h': "h' = h\<lparr>trace := scan_reads s (length bs) @ trace h\<rparr>" by simp
  then have "performed h h' = scan_reads s (length bs)" by (intro performed_append) simp
  with assms(1) show ?thesis
    by (auto simp add: h' c_string_def scan_reads_no_write dest: set_scan_reads)
next
  case short: True
  show ?thesis
  proof (cases "fst (malloc env (length bs + 1) h)")
    case None
    from my_strdup_refused [OF assms(1) short None] assms(2)
    have h': "h' = h\<lparr>trace := (Alloc (length bs + 1) None # scan_reads s (length bs)) @ trace h\<rparr>"
      by simp
    then have "performed h h' = Alloc (length bs + 1) None # scan_reads s (length bs)"
      by (intro performed_append) simp
    with assms(1) show ?thesis
      by (auto simp add: h' c_string_def scan_reads_no_write dest: set_scan_reads)
  next
    case (Some p)
    from my_strdup_granted [OF assms(1) short Some] assms(2)
    have r: "r = Inr (Some p)"
      and cells: "cells h' = (\<lambda>a. if p \<le> a \<and> a \<le> p + length bs
                            then Some ((bs @ [CHR 0x00]) ! (a - p)) else cells h a)"
      and "trace h' = (copy_events p s (length bs) @ Alloc (length bs + 1) (Some p) #
                        scan_reads s (length bs)) @ trace h" by auto
    then have ev: "performed h h' = copy_events p s (length bs) @ Alloc (length bs + 1) (Some p) #
                        scan_reads s (length bs)" by (intro performed_append)
    from Some have free: "block_free h p (length bs + 1)" by (simp add: malloc_Some_iff)
    then have fresh: "cells h a = None" if "p \<le> a" "a \<le> p + length bs" for a
      using that by (simp add: block_free_iff)
    have 1: "\<forall>a. cells h a \<noteq> None \<longrightarrow> cells h' a = cells h a"
      using fresh by (auto simp add: cells)
    have 2: "c_string h' s bs"
      using assms(1) 1 by (simp add: c_string_iff)
    have 3: "\<forall>a. Read a \<in> set (performed h h') \<longrightarrow> s \<le> a \<and> a \<le> s + length bs"
      unfolding ev by (auto dest: set_scan_reads set_copy_events_read)
    have 4: "\<forall>a. Write a \<in> set (performed h h') \<longrightarrow>
               cells h a = None \<and> (\<exists>p. r = Inr (Some p) \<and> p \<le> a \<and> a \<le> p + length bs)"
      unfolding ev using fresh r
      by (auto simp add: scan_reads_no_write dest: set_copy_events_write)
    from 1 2 3 4 show ?thesis by blast
  qed
qed

text \<open>
  The hypothesis of C10 holds for \<open>"hi"\<close>; the call that copies it leaves it intact.
\<close>

theorem my_strdup_frame_witness:
  "c_string hi_heap 10 ''hi'' \<and>
   c_string (snd (my_strdup (Some (20, \<lambda>a. CHR ''?'')) (Some 10) hi_heap)) 10 ''hi''"
  using my_strdup_frame [OF hi_heap_string prod.collapse [symmetric]] hi_heap_string
  by blast

section \<open>Properties of the ordering demonstrations\<close>

subsection \<open>Subtraction of 32-bit integers\<close>

lemma sint_diff: "sint (a - b :: c_int) = signed_take_bit 31 (sint a - sint b)"
  by (simp add: sint_word_ariths)

lemma sint_bounds: "- 2147483648 \<le> sint (a :: c_int)" "sint (a :: c_int) < 2147483648"
  using sint_ge [of a] sint_lt [of a] by simp_all

lemma wrap_shift: "signed_take_bit 31 (d :: int) = (d + 2147483648) mod 4294967296 - 2147483648"
  by (simp add: signed_take_bit_eq_take_bit_shift take_bit_eq_mod)

lemma wrap_high:
  fixes d :: int
  assumes "2147483648 \<le> d" "d < 4294967296"
  shows "signed_take_bit 31 d = d - 4294967296"
proof -
  have "d + 2147483648 = d - 2147483648 + 4294967296"
    by linarith
  then have "(d + 2147483648) mod 4294967296 = (d - 2147483648 + 4294967296) mod 4294967296"
    by (rule arg_cong)
  also have "\<dots> = (d - 2147483648) mod 4294967296"
    by (rule mod_add_self2)
  also have "\<dots> = d - 2147483648"
    using assms by (intro mod_pos_pos_trivial) simp_all
  finally show ?thesis by (simp add: wrap_shift)
qed

lemma wrap_low:
  fixes d :: int
  assumes "- 4294967296 < d" "d < - 2147483648"
  shows "signed_take_bit 31 d = d + 4294967296"
proof -
  have "(d + 2147483648) mod 4294967296 = (d + 2147483648 + 4294967296) mod 4294967296"
    by (rule mod_add_self2 [symmetric])
  also have "\<dots> = d + 2147483648 + 4294967296"
    using assms by (intro mod_pos_pos_trivial) simp_all
  finally show ?thesis by (simp add: wrap_shift)
qed

lemma wrap_none:
  fixes d :: int
  assumes "- 2147483648 \<le> d" "d < 2147483648"
  shows "signed_take_bit 31 d = d"
  using assms by (intro signed_take_bit_int_eq_self) simp_all

lemma sint_diff_sgn_iff:
  "sgn (sint (a - b :: c_int)) = sgn (sint a - sint b) \<longleftrightarrow>
     - 2147483648 \<le> sint a - sint b \<and> sint a - sint b < 2147483648"
proof -
  let ?d = "sint a - sint b"
  have range: "- 4294967296 < ?d" "?d < 4294967296"
    using sint_bounds [of a] sint_bounds [of b] by linarith+
  consider (low) "?d < - 2147483648" | (mid) "- 2147483648 \<le> ?d" "?d < 2147483648"
    | (high) "2147483648 \<le> ?d" by linarith
  then show ?thesis
  proof cases
    case low
    with range have "sint (a - b) = ?d + 4294967296"
      unfolding sint_diff by (intro wrap_low)
    with low range show ?thesis by (simp add: sgn_if)
  next
    case mid
    then have "sint (a - b) = ?d"
      unfolding sint_diff by (intro wrap_none)
    with mid show ?thesis by simp
  next
    case high
    with range have "sint (a - b) = ?d - 4294967296"
      unfolding sint_diff by (intro wrap_high)
    with high range show ?thesis by (simp add: sgn_if)
  qed
qed

lemma sint_diff_exact:
  "- 2147483648 \<le> sint a - sint b \<Longrightarrow> sint a - sint b < 2147483648 \<Longrightarrow>
   sint (a - b :: c_int) = sint a - sint b"
  unfolding sint_diff by (intro wrap_none)

subsection \<open>Comparators that are exact define a total ordering with one sorted arrangement\<close>

lemma sgn_le_0_iff: "sgn (x :: int) = sgn y \<Longrightarrow> x \<le> 0 \<longleftrightarrow> y \<le> 0"
  by (auto simp add: sgn_if split: if_splits)

lemma exact_on_le: "exact_on cmp key A \<Longrightarrow> a \<in> A \<Longrightarrow> b \<in> A \<Longrightarrow> sint (cmp a b) \<le> 0 \<longleftrightarrow> key a \<le> key b"
  using sgn_le_0_iff [of "sint (cmp a b)" "key a - key b"] by (simp add: exact_on_def)

lemma exact_on_total_ordering:
  assumes "exact_on cmp key A"
  shows "total_ordering cmp A"
  unfolding total_ordering_def
proof (intro conjI ballI impI)
  fix a b assume "a \<in> A" "b \<in> A"
  with assms have "sgn (sint (cmp a b)) = sgn (key a - key b)" "sgn (sint (cmp b a)) = sgn (key b - key a)"
    by (simp_all add: exact_on_def)
  then show "sgn (sint (cmp a b)) = - sgn (sint (cmp b a))"
    by (simp add: sgn_if)
next
  fix a b c assume "a \<in> A" "b \<in> A" "c \<in> A" "sint (cmp a b) \<le> 0 \<and> sint (cmp b c) \<le> 0"
  with assms show "sint (cmp a c) \<le> 0" by (simp add: exact_on_le)
qed

lemma in_order_sorted_key:
  assumes "exact_on cmp key (set ys)"
  shows "in_order cmp ys \<longleftrightarrow> sorted (map key ys)"
proof -
  have "in_order cmp ys \<longleftrightarrow> successively (\<lambda>a b. key a \<le> key b) ys"
    unfolding in_order_def using assms
    by (auto elim!: successively_mono simp add: exact_on_le)
  also have "\<dots> \<longleftrightarrow> successively (\<le>) (map key ys)"
    by (simp add: successively_map)
  also have "\<dots> \<longleftrightarrow> sorted (map key ys)"
    by (simp add: successively_conv_sorted_wrt)
  finally show ?thesis .
qed

lemma sorted_key_unique:
  assumes "mset ys = mset xs" and "sorted (map key ys)" and "sorted (map key xs)"
    and "inj_on key (set xs)"
  shows "ys = xs"
proof -
  have set: "set ys = set xs" using assms(1) by (rule mset_eq_setD)
  have "mset (map key ys) = mset (map key xs)" using assms(1) by simp
  then have "sort (map key xs) = map key ys" using assms(2) by (rule properties_for_sort)
  moreover have "sort (map key xs) = map key xs" using assms(3) by (simp add: sort_key_id_if_sorted)
  ultimately have "map key ys = map key xs" by simp
  then show ?thesis using assms(4) set by (simp add: inj_on_map_eq_map)
qed

lemma print_loop_all:
  "i \<le> length arr \<Longrightarrow> print_loop fmt arr (length arr) i out = Some (out @ concat (map fmt (drop i arr)))"
proof (induction "length arr - i" arbitrary: i out)
  case 0
  then show ?case by (subst print_loop.simps) simp
next
  case (Suc k)
  then have lt: "i < length arr" by simp
  have "print_loop fmt arr (length arr) i out = print_loop fmt arr (length arr) (i + 1) (out @ fmt (arr ! i))"
    using lt by (subst print_loop.simps) simp
  also have "\<dots> = Some ((out @ fmt (arr ! i)) @ concat (map fmt (drop (i + 1) arr)))"
    using Suc.hyps(2) lt by (intro Suc.hyps(1)) simp_all
  also have "drop i arr = arr ! i # drop (i + 1) arr"
    using lt by (simp add: Cons_nth_drop_Suc)
  then have "(out @ fmt (arr ! i)) @ concat (map fmt (drop (i + 1) arr)) = out @ concat (map fmt (drop i arr))"
    by simp
  finally show ?case .
qed

lemma qsort_contractD:
  assumes "qsort_contract width qsort" and "n \<le> length arr"
    and "total_ordering cmp (set (take n arr))"
  shows "length (qsort arr n width cmp) = length arr"
    and "drop n (qsort arr n width cmp) = drop n arr"
    and "mset (take n (qsort arr n width cmp)) = mset (take n arr)"
    and "in_order cmp (take n (qsort arr n width cmp))"
  using assms unfolding qsort_contract_def by blast+

text \<open>What a demonstration prints, for any sort that keeps the contract.\<close>

lemma order_and_render_contract:
  assumes "qsort_contract width qsort" and "total_ordering cmp (set arr)"
  shows "order_and_render qsort width cmp fmt arr =
           Some (render fmt (qsort arr (length arr) width cmp), 0)"
    and "mset (qsort arr (length arr) width cmp) = mset arr"
    and "in_order cmp (qsort arr (length arr) width cmp)"
proof -
  let ?ys = "qsort arr (length arr) width cmp"
  have to: "total_ordering cmp (set (take (length arr) arr))" using assms(2) by simp
  note c = qsort_contractD(1,3,4) [OF assms(1) order_refl to]
  from c show "mset ?ys = mset arr" "in_order cmp ?ys" by simp_all
  have "print_loop fmt ?ys (length ?ys) 0 [] = Some ([] @ concat (map fmt (drop 0 ?ys)))"
    by (rule print_loop_all) simp
  then show "order_and_render qsort width cmp fmt arr = Some (render fmt ?ys, 0)"
    by (simp add: order_and_render_def render_def c(1))
qed

lemma sorted_result_unique:
  assumes "qsort_contract width qsort" and "exact_on cmp key (set arr)" and "inj_on key (set arr)"
    and "mset expected = mset arr" and "sorted (map key expected)"
  shows "qsort arr (length arr) width cmp = expected"
proof -
  let ?ys = "qsort arr (length arr) width cmp"
  have to: "total_ordering cmp (set arr)" using assms(2) by (rule exact_on_total_ordering)
  have m: "mset ?ys = mset arr" and o: "in_order cmp ?ys"
    using order_and_render_contract(2,3) [OF assms(1) to] by simp_all
  from m have set: "set ?ys = set arr" by (rule mset_eq_setD)
  from assms(4) have set': "set expected = set arr" by (rule mset_eq_setD)
  have "sorted (map key ?ys)"
    using o assms(2) by (simp add: in_order_sorted_key set)
  with m assms(4) assms(5) show ?thesis
    using assms(3) by (intro sorted_key_unique [of _ _ key]) (simp_all add: set')
qed

subsection \<open>The insertion sort keeps the contract\<close>

lemma mset_insert_by: "mset (insert_by cmp x ys) = add_mset x (mset ys)"
  by (induction ys) simp_all

lemma set_insert_by: "set (insert_by cmp x ys) = insert x (set ys)"
  by (induction ys) auto

lemma mset_insertion: "mset (foldr (insert_by cmp) xs []) = mset xs"
  by (induction xs) (simp_all add: mset_insert_by)

lemma total_ordering_flip:
  assumes "total_ordering cmp A" and "a \<in> A" and "b \<in> A" and "\<not> sint (cmp a b) \<le> 0"
  shows "sint (cmp b a) \<le> 0"
proof -
  from assms(1-3) have "sgn (sint (cmp a b)) = - sgn (sint (cmp b a))"
    unfolding total_ordering_def by blast
  with assms(4) show ?thesis by (simp add: sgn_if split: if_splits)
qed

lemma total_ordering_trans:
  assumes "total_ordering cmp A" and "a \<in> A" and "b \<in> A" and "c \<in> A"
    and "sint (cmp a b) \<le> 0" and "sint (cmp b c) \<le> 0"
  shows "sint (cmp a c) \<le> 0"
  using assms unfolding total_ordering_def by blast

lemma sorted_insert_by:
  assumes "total_ordering cmp A" and "x \<in> A" and "set ys \<subseteq> A"
    and "sorted_wrt (\<lambda>a b. sint (cmp a b) \<le> 0) ys"
  shows "sorted_wrt (\<lambda>a b. sint (cmp a b) \<le> 0) (insert_by cmp x ys)"
  using assms(3,4)
proof (induction ys)
  case Nil
  show ?case by simp
next
  case (Cons y ys)
  then have y: "y \<in> A" and ys: "set ys \<subseteq> A"
    and le: "\<forall>z\<in>set ys. sint (cmp y z) \<le> 0"
    and s: "sorted_wrt (\<lambda>a b. sint (cmp a b) \<le> 0) ys" by simp_all
  show ?case
  proof (cases "sint (cmp x y) \<le> 0")
    case True
    have "\<forall>z\<in>set ys. sint (cmp x z) \<le> 0"
    proof
      fix z assume z: "z \<in> set ys"
      with ys le have "z \<in> A" "sint (cmp y z) \<le> 0" by auto
      with assms(1,2) y True show "sint (cmp x z) \<le> 0"
        by (intro total_ordering_trans [of cmp A x y z])
    qed
    with True le s show ?thesis by simp
  next
    case False
    with assms(1,2) y have "sint (cmp y x) \<le> 0" by (intro total_ordering_flip [of cmp A x y])
    with False le Cons.IH [OF ys s] show ?thesis by (simp add: set_insert_by)
  qed
qed

lemma sorted_insertion:
  assumes "total_ordering cmp A" and "set xs \<subseteq> A"
  shows "sorted_wrt (\<lambda>a b. sint (cmp a b) \<le> 0) (foldr (insert_by cmp) xs [])"
  using assms(2)
proof (induction xs)
  case Nil
  show ?case by simp
next
  case (Cons x xs)
  then have "x \<in> A" "set xs \<subseteq> A" by simp_all
  moreover have "set (foldr (insert_by cmp) xs []) \<subseteq> A"
    using \<open>set xs \<subseteq> A\<close> mset_insertion [of cmp xs] by (metis mset_eq_setD)
  ultimately show ?case using Cons.IH assms(1) by (simp add: sorted_insert_by)
qed

lemma insertion_qsort_contract: "qsort_contract width insertion_qsort"
  unfolding qsort_contract_def
proof (intro allI impI, elim conjE)
  fix arr :: "'a list" and n and cmp :: "'a \<Rightarrow> 'a \<Rightarrow> c_int"
  assume n: "n \<le> length arr" and to: "total_ordering cmp (set (take n arr))"
  let ?s = "foldr (insert_by cmp) (take n arr) []"
  have m: "mset ?s = mset (take n arr)" by (rule mset_insertion)
  then have "length ?s = length (take n arr)" by (rule mset_eq_length)
  with n have len: "length ?s = n" by simp
  have o: "in_order cmp ?s"
    unfolding in_order_def
    by (intro successively_if_sorted_wrt sorted_insertion [OF to]) (rule subset_refl)
  show "length (insertion_qsort arr n width cmp) = length arr \<and>
        drop n (insertion_qsort arr n width cmp) = drop n arr \<and>
        mset (take n (insertion_qsort arr n width cmp)) = mset (take n arr) \<and>
        in_order cmp (take n (insertion_qsort arr n width cmp))"
    using n len m o by (simp add: insertion_qsort_def)
qed

subsection \<open>The four comparators are exact\<close>

lemma cmp_int_exact:
  assumes "\<forall>a\<in>A. \<forall>b\<in>A. - 2147483648 \<le> sint a - sint b \<and> sint a - sint b < 2147483648"
  shows "exact_on cmp_int sint A"
  using assms by (simp add: exact_on_def cmp_int_def sint_diff_exact)

lemma cmp_int_desc_exact:
  assumes "\<forall>a\<in>A. \<forall>b\<in>A. - 2147483648 \<le> sint a - sint b \<and> sint a - sint b < 2147483648"
  shows "exact_on cmp_int_desc (\<lambda>x. - sint x) A"
  using assms by (simp add: exact_on_def cmp_int_desc_def sint_diff_exact)

lemma inj_sint: "inj_on (sint :: c_int \<Rightarrow> int) A"
  by (rule inj_onI) (rule signed_word_eqI)

lemma inj_neg_sint: "inj_on (\<lambda>x :: c_int. - sint x) A"
  by (rule inj_onI) (simp add: signed_word_eqI)

lemma sint_promote:
  "sint (promote signed_char c) =
     (if signed_char \<and> 128 \<le> (of_char c :: nat) then int (of_char c) - 256 else int (of_char c))"
proof -
  have lt: "(of_char c :: nat) < 256" by simp
  have "int (of_char c) < 256" "0 \<le> int (of_char c)" by simp_all
  then have "signed_take_bit 31 (int (of_char c)) = int (of_char c)"
    by (intro wrap_none) linarith+
  then have 1: "sint (of_nat (of_char c) :: c_int) = int (of_char c)"
    by (simp add: signed_of_nat)
  have "sint (of_nat (of_char c) - 256 :: c_int) = sint (of_nat (of_char c) :: c_int) - sint (256 :: c_int)"
  proof (rule sint_diff_exact)
    have s: "sint (256 :: c_int) = 256" by simp
    show "- 2147483648 \<le> sint (of_nat (of_char c) :: c_int) - sint (256 :: c_int)"
      unfolding 1 s using \<open>0 \<le> int (of_char c)\<close> by linarith
    show "sint (of_nat (of_char c) :: c_int) - sint (256 :: c_int) < 2147483648"
      unfolding 1 s using \<open>int (of_char c) < 256\<close> by linarith
  qed
  then have 2: "sint (of_nat (of_char c) - 256 :: c_int) = int (of_char c) - 256"
    by (simp add: 1)
  show ?thesis by (simp add: promote_def 1 2)
qed

lemma promote_range: "- 128 \<le> sint (promote signed_char c)" "sint (promote signed_char c) < 256"
  using nat_of_char_less_256 [of c] by (auto simp add: sint_promote simp del: nat_of_char_less_256)

lemma inj_promote: "inj_on (\<lambda>c. sint (promote signed_char c)) A"
proof (rule inj_onI)
  fix a b assume "sint (promote signed_char a) = sint (promote signed_char b)"
  then have "(of_char a :: nat) = of_char b"
    using nat_of_char_less_256 [of a] nat_of_char_less_256 [of b]
    by (auto simp add: sint_promote simp del: nat_of_char_less_256 split: if_splits)
  then show "a = b" by simp
qed

lemma inj_neg_promote: "inj_on (\<lambda>c. - sint (promote signed_char c)) A"
  using inj_promote [of signed_char A] by (auto simp add: inj_on_def)

lemma cmp_char_asc_exact: "exact_on (cmp_char_asc signed_char) (\<lambda>c. sint (promote signed_char c)) A"
  unfolding exact_on_def cmp_char_asc_def
proof (intro ballI)
  fix a b
  have "sint (promote signed_char a - promote signed_char b) =
        sint (promote signed_char a) - sint (promote signed_char b)"
    using promote_range [of signed_char a] promote_range [of signed_char b]
    by (intro sint_diff_exact) linarith+
  then show "sgn (sint (promote signed_char a - promote signed_char b)) =
          sgn (sint (promote signed_char a) - sint (promote signed_char b))" by simp
qed

lemma cmp_char_desc_exact: "exact_on (cmp_char_desc signed_char) (\<lambda>c. - sint (promote signed_char c)) A"
  unfolding exact_on_def cmp_char_desc_def
proof (intro ballI)
  fix a b
  have "sint (promote signed_char b - promote signed_char a) =
        sint (promote signed_char b) - sint (promote signed_char a)"
    using promote_range [of signed_char a] promote_range [of signed_char b]
    by (intro sint_diff_exact) linarith+
  then show "sgn (sint (promote signed_char b - promote signed_char a)) =
          sgn (- sint (promote signed_char a) - - sint (promote signed_char b))" by simp
qed

subsection \<open>The sorted arrays of the four demonstrations\<close>

lemma int_arr_representable:
  "\<forall>a\<in>set [5, 2, 9, 1, 5, 6 :: c_int]. \<forall>b\<in>set [5, 2, 9, 1, 5, 6 :: c_int].
     - 2147483648 \<le> sint a - sint b \<and> sint a - sint b < 2147483648"
  by simp

lemma int_arr_asc_exact: "exact_on cmp_int sint (set [5, 2, 9, 1, 5, 6])"
  using int_arr_representable by (rule cmp_int_exact)

lemma int_arr_desc_exact: "exact_on cmp_int_desc (\<lambda>x. - sint x) (set [5, 2, 9, 1, 5, 6])"
  using int_arr_representable by (rule cmp_int_desc_exact)

lemma render_int_asc: "render printf_d [1, 2, 5, 5, 6, 9] = ''1 2 5 5 6 9 '' @ [CHR 0x0A]"
  by (simp add: render_def printf_d_def digits.simps digit_def)

lemma render_int_desc: "render printf_d [9, 6, 5, 5, 2, 1] = ''9 6 5 5 2 1 '' @ [CHR 0x0A]"
  by (simp add: render_def printf_d_def digits.simps digit_def)

lemma render_char_asc:
  "render printf_c (CHR 0x00 # ''aalms'') = CHR 0x00 # '' a a l m s '' @ [CHR 0x0A]"
  by (simp add: render_def printf_c_def)

lemma render_char_desc: "render printf_c ''zqmba'' = ''z q m b a '' @ [CHR 0x0A]"
  by (simp add: render_def printf_c_def)

lemma sorted_int_asc:
  assumes "qsort_contract 4 qsort"
  shows "qsort [5, 2, 9, 1, 5, 6] (length [5, 2, 9, 1, 5, 6 :: c_int]) 4 cmp_int = [1, 2, 5, 5, 6, 9]"
  using sorted_result_unique [OF assms int_arr_asc_exact inj_sint, of "[1, 2, 5, 5, 6, 9]"]
  by simp

lemma sorted_int_desc:
  assumes "qsort_contract 4 qsort"
  shows "qsort [5, 2, 9, 1, 5, 6] (length [5, 2, 9, 1, 5, 6 :: c_int]) 4 cmp_int_desc = [9, 6, 5, 5, 2, 1]"
  using sorted_result_unique [OF assms int_arr_desc_exact inj_neg_sint, of "[9, 6, 5, 5, 2, 1]"]
  by simp

lemma sint_promote_ascii [simp]: "(of_char c :: nat) < 128 \<Longrightarrow> sint (promote signed_char c) = int (of_char c)"
  by (simp add: sint_promote)

lemma sorted_char_asc:
  assumes "qsort_contract 1 qsort"
  shows "qsort (''salam'' @ [CHR 0x00]) (length (''salam'' @ [CHR 0x00])) 1 (cmp_char_asc signed_char) = CHR 0x00 # ''aalms''"
  using sorted_result_unique [OF assms cmp_char_asc_exact inj_promote, of "CHR 0x00 # ''aalms''" "''salam'' @ [CHR 0x00]" signed_char]
  by simp

lemma sorted_char_desc:
  assumes "qsort_contract 1 qsort"
  shows "qsort ''zaqmb'' (length ''zaqmb'') 1 (cmp_char_desc signed_char) = ''zqmba''"
  using sorted_result_unique [OF assms cmp_char_desc_exact inj_neg_promote, of "''zqmba''" "''zaqmb''" signed_char]
  by simp

lemma qsort_idempotent:
  assumes "qsort_contract width qsort" and "exact_on cmp key (set arr)" and "inj_on key (set arr)"
  shows "qsort (qsort arr (length arr) width cmp) (length arr) width cmp =
         qsort arr (length arr) width cmp"
proof -
  let ?ys = "qsort arr (length arr) width cmp"
  have to: "total_ordering cmp (set arr)" using assms(2) by (rule exact_on_total_ordering)
  have m: "mset ?ys = mset arr" and o: "in_order cmp ?ys"
    using order_and_render_contract(2,3) [OF assms(1) to] by simp_all
  from m have set: "set ?ys = set arr" by (rule mset_eq_setD)
  from m have len: "length ?ys = length arr" by (rule mset_eq_length)
  have s: "sorted (map key ?ys)"
    using o assms(2) by (simp add: in_order_sorted_key set)
  have "qsort ?ys (length ?ys) width cmp = ?ys"
    using assms s by (intro sorted_result_unique [of _ _ _ key]) (simp_all add: set)
  then show ?thesis by (simp only: len)
qed

lemma order_and_render_idempotent:
  assumes "qsort_contract width qsort" and "exact_on cmp key (set arr)" and "inj_on key (set arr)"
  shows "order_and_render qsort width cmp fmt (qsort arr (length arr) width cmp) =
         order_and_render qsort width cmp fmt arr"
proof -
  let ?ys = "qsort arr (length arr) width cmp"
  have to: "total_ordering cmp (set arr)" using assms(2) by (rule exact_on_total_ordering)
  have m: "mset ?ys = mset arr"
    using order_and_render_contract(2) [OF assms(1) to] by simp
  from m have set: "set ?ys = set arr" by (rule mset_eq_setD)
  from m have len: "length ?ys = length arr" by (rule mset_eq_length)
  have to': "total_ordering cmp (set ?ys)" using to by (simp only: set)
  have "order_and_render qsort width cmp fmt ?ys = Some (render fmt (qsort ?ys (length ?ys) width cmp), 0)"
    using assms(1) to' by (rule order_and_render_contract(1))
  also have "qsort ?ys (length ?ys) width cmp = ?ys"
    unfolding len using assms by (rule qsort_idempotent)
  also have "Some (render fmt ?ys, 0) = order_and_render qsort width cmp fmt arr"
    using assms(1) to by (rule order_and_render_contract(1) [symmetric])
  finally show ?thesis .
qed

lemma adjacent_pairs:
  "in_order cmp ys \<longleftrightarrow> (\<forall>i. i + 1 < length ys \<longrightarrow> sint (cmp (ys ! i) (ys ! (i + 1))) \<le> 0)"
  by (simp add: in_order_def successively_conv_nth)

lemma demo_run:
  assumes "qsort_contract width qsort" and "exact_on cmp key (set arr)"
  shows "\<exists>ys. order_and_render qsort width cmp fmt arr = Some (render fmt ys, 0) \<and>
              mset ys = mset arr \<and>
              (\<forall>i. i + 1 < length ys \<longrightarrow> sint (cmp (ys ! i) (ys ! (i + 1))) \<le> 0)"
proof -
  have to: "total_ordering cmp (set arr)" using assms(2) by (rule exact_on_total_ordering)
  from order_and_render_contract [OF assms(1) to]
  show ?thesis unfolding adjacent_pairs by blast
qed

subsection \<open>The claims\<close>

text \<open>
  C4. With a library sort that keeps its contract (for \<open>int\<close> and for \<open>char\<close> arrays),
  each of the four demonstrations prints the rendering of a sequence \<open>ys\<close> in which,
  for every adjacent pair \<open>(ys[i], ys[i+1])\<close>, the demonstration's own comparator
  yields less-or-equal (a result \<open>\<le> 0\<close>). This holds whether plain \<open>char\<close> is signed
  or not.
\<close>

theorem demos_rendered_in_order:
  assumes "qsort_contract 4 qsort_int" and "qsort_contract 1 qsort_char"
  shows "(\<exists>ys. main_int_asc qsort_int = Some (render printf_d ys, 0) \<and>
            (\<forall>i. i + 1 < length ys \<longrightarrow> sint (cmp_int (ys ! i) (ys ! (i + 1))) \<le> 0)) \<and>
         (\<exists>ys. main_int_desc qsort_int = Some (render printf_d ys, 0) \<and>
            (\<forall>i. i + 1 < length ys \<longrightarrow> sint (cmp_int_desc (ys ! i) (ys ! (i + 1))) \<le> 0)) \<and>
         (\<exists>ys. main_char_asc signed_char qsort_char = Some (render printf_c ys, 0) \<and>
            (\<forall>i. i + 1 < length ys \<longrightarrow>
                 sint (cmp_char_asc signed_char (ys ! i) (ys ! (i + 1))) \<le> 0)) \<and>
         (\<exists>ys. main_char_desc signed_char qsort_char = Some (render printf_c ys, 0) \<and>
            (\<forall>i. i + 1 < length ys \<longrightarrow>
                 sint (cmp_char_desc signed_char (ys ! i) (ys ! (i + 1))) \<le> 0))"
proof (intro conjI)
  show "\<exists>ys. main_int_asc qsort_int = Some (render printf_d ys, 0) \<and>
            (\<forall>i. i + 1 < length ys \<longrightarrow> sint (cmp_int (ys ! i) (ys ! (i + 1))) \<le> 0)"
    unfolding main_int_asc_def
    using demo_run [OF assms(1) int_arr_asc_exact] by blast
  show "\<exists>ys. main_int_desc qsort_int = Some (render printf_d ys, 0) \<and>
            (\<forall>i. i + 1 < length ys \<longrightarrow> sint (cmp_int_desc (ys ! i) (ys ! (i + 1))) \<le> 0)"
    unfolding main_int_desc_def
    using demo_run [OF assms(1) int_arr_desc_exact] by blast
  show "\<exists>ys. main_char_asc signed_char qsort_char = Some (render printf_c ys, 0) \<and>
            (\<forall>i. i + 1 < length ys \<longrightarrow>
                 sint (cmp_char_asc signed_char (ys ! i) (ys ! (i + 1))) \<le> 0)"
    unfolding main_char_asc_def
    using demo_run [OF assms(2) cmp_char_asc_exact] by blast
  show "\<exists>ys. main_char_desc signed_char qsort_char = Some (render printf_c ys, 0) \<and>
            (\<forall>i. i + 1 < length ys \<longrightarrow>
                 sint (cmp_char_desc signed_char (ys ! i) (ys ! (i + 1))) \<le> 0)"
    unfolding main_char_desc_def
    using demo_run [OF assms(2) cmp_char_desc_exact] by blast
qed

text \<open>
  The hypotheses of C4 hold for the insertion sort.
\<close>

theorem demos_rendered_in_order_witness:
  "qsort_contract 4 (insertion_qsort :: c_int list \<Rightarrow> _) \<and>
   qsort_contract 1 (insertion_qsort :: char list \<Rightarrow> _) \<and>
   (\<exists>ys. main_int_asc insertion_qsort = Some (render printf_d ys, 0)) \<and>
   (\<exists>ys. main_char_desc True insertion_qsort = Some (render printf_c ys, 0))"
  using demos_rendered_in_order [OF insertion_qsort_contract insertion_qsort_contract, of True]
    insertion_qsort_contract [of 4, where 'a = c_int] insertion_qsort_contract [of 1, where 'a = char]
  by blast

text \<open>
  C5. With a library sort that keeps its contract, each of the four demonstrations
  prints the rendering of a sequence whose multiset of values is the multiset of values
  of its fixed input array: nothing is dropped, duplicated or invented.
\<close>

theorem demos_render_permutation:
  assumes "qsort_contract 4 qsort_int" and "qsort_contract 1 qsort_char"
  shows "(\<exists>ys. main_int_asc qsort_int = Some (render printf_d ys, 0) \<and>
            mset ys = mset [5, 2, 9, 1, 5, 6]) \<and>
         (\<exists>ys. main_int_desc qsort_int = Some (render printf_d ys, 0) \<and>
            mset ys = mset [5, 2, 9, 1, 5, 6]) \<and>
         (\<exists>ys. main_char_asc signed_char qsort_char = Some (render printf_c ys, 0) \<and>
            mset ys = mset (''salam'' @ [CHR 0x00])) \<and>
         (\<exists>ys. main_char_desc signed_char qsort_char = Some (render printf_c ys, 0) \<and>
            mset ys = mset ''zaqmb'')"
proof (intro conjI)
  show "\<exists>ys. main_int_asc qsort_int = Some (render printf_d ys, 0) \<and>
            mset ys = mset [5, 2, 9, 1, 5, 6]"
    unfolding main_int_asc_def
    using demo_run [OF assms(1) int_arr_asc_exact] by blast
  show "\<exists>ys. main_int_desc qsort_int = Some (render printf_d ys, 0) \<and>
            mset ys = mset [5, 2, 9, 1, 5, 6]"
    unfolding main_int_desc_def
    using demo_run [OF assms(1) int_arr_desc_exact] by blast
  show "\<exists>ys. main_char_asc signed_char qsort_char = Some (render printf_c ys, 0) \<and>
            mset ys = mset (''salam'' @ [CHR 0x00])"
    unfolding main_char_asc_def
    using demo_run [OF assms(2) cmp_char_asc_exact] by blast
  show "\<exists>ys. main_char_desc signed_char qsort_char = Some (render printf_c ys, 0) \<and>
            mset ys = mset ''zaqmb''"
    unfolding main_char_desc_def
    using demo_run [OF assms(2) cmp_char_desc_exact] by blast
qed

text \<open>
  The hypotheses of C5 hold for the insertion sort.
\<close>

theorem demos_render_permutation_witness:
  "qsort_contract 4 (insertion_qsort :: c_int list \<Rightarrow> _) \<and>
   qsort_contract 1 (insertion_qsort :: char list \<Rightarrow> _) \<and>
   (\<exists>ys. main_int_desc insertion_qsort = Some (render printf_d ys, 0) \<and>
         mset ys = mset [5, 2, 9, 1, 5, 6]) \<and>
   (\<exists>ys. main_char_asc True insertion_qsort = Some (render printf_c ys, 0) \<and>
         mset ys = mset (''salam'' @ [CHR 0x00]))"
  using demos_render_permutation [OF insertion_qsort_contract insertion_qsort_contract, of True]
    insertion_qsort_contract [of 4, where 'a = c_int] insertion_qsort_contract [of 1, where 'a = char]
  by blast

text \<open>
  C6. With a library sort that keeps its contract, the integer ascending demonstration
  writes exactly \<open>"1 2 5 5 6 9 \n"\<close> (a space after every element, also the last) and
  exits with status 0.
\<close>

theorem main_int_asc_output:
  assumes "qsort_contract 4 qsort"
  shows "main_int_asc qsort = Some (''1 2 5 5 6 9 '' @ [CHR 0x0A], 0)"
proof -
  have "total_ordering cmp_int (set [5, 2, 9, 1, 5, 6])"
    using int_arr_asc_exact by (rule exact_on_total_ordering)
  with assms have "main_int_asc qsort =
      Some (render printf_d (qsort [5, 2, 9, 1, 5, 6] (length [5, 2, 9, 1, 5, 6 :: c_int]) 4 cmp_int), 0)"
    unfolding main_int_asc_def by (rule order_and_render_contract(1))
  then show ?thesis
    unfolding sorted_int_asc [OF assms] render_int_asc .
qed

text \<open>
  The hypothesis of C6 holds for the insertion sort.
\<close>

theorem main_int_asc_output_witness:
  "qsort_contract 4 (insertion_qsort :: c_int list \<Rightarrow> _) \<and>
   main_int_asc insertion_qsort = Some (''1 2 5 5 6 9 '' @ [CHR 0x0A], 0)"
  using main_int_asc_output [OF insertion_qsort_contract] insertion_qsort_contract
  by blast

text \<open>
  C7. With a library sort that keeps its contract, the character ascending
  demonstration sorts all six elements of its array, the terminator of the literal
  \<open>"salam"\<close> among them, and writes exactly \<open>"\0 a a l m s \n"\<close>: the NUL byte comes
  first. This holds whether plain \<open>char\<close> is signed or not.
\<close>

theorem main_char_asc_output:
  assumes "qsort_contract 1 qsort"
  shows "main_char_asc signed_char qsort = Some (CHR 0x00 # '' a a l m s '' @ [CHR 0x0A], 0)"
proof -
  have "total_ordering (cmp_char_asc signed_char) (set (''salam'' @ [CHR 0x00]))"
    using cmp_char_asc_exact by (rule exact_on_total_ordering)
  with assms have "main_char_asc signed_char qsort =
      Some (render printf_c (qsort (''salam'' @ [CHR 0x00]) (length (''salam'' @ [CHR 0x00])) 1
              (cmp_char_asc signed_char)), 0)"
    unfolding main_char_asc_def by (rule order_and_render_contract(1))
  then show ?thesis
    unfolding sorted_char_asc [OF assms] render_char_asc .
qed

text \<open>
  The hypothesis of C7 holds for the insertion sort.
\<close>

theorem main_char_asc_output_witness:
  "qsort_contract 1 (insertion_qsort :: char list \<Rightarrow> _) \<and>
   main_char_asc False insertion_qsort = Some (CHR 0x00 # '' a a l m s '' @ [CHR 0x0A], 0)"
  using main_char_asc_output [OF insertion_qsort_contract] insertion_qsort_contract
  by blast

text \<open>
  The other two outputs, scenarios 2 and 4 of the specification.
\<close>

lemma main_int_desc_output:
  assumes "qsort_contract 4 qsort"
  shows "main_int_desc qsort = Some (''9 6 5 5 2 1 '' @ [CHR 0x0A], 0)"
proof -
  have "total_ordering cmp_int_desc (set [5, 2, 9, 1, 5, 6])"
    using int_arr_desc_exact by (rule exact_on_total_ordering)
  with assms have "main_int_desc qsort =
      Some (render printf_d
              (qsort [5, 2, 9, 1, 5, 6] (length [5, 2, 9, 1, 5, 6 :: c_int]) 4 cmp_int_desc), 0)"
    unfolding main_int_desc_def by (rule order_and_render_contract(1))
  then show ?thesis
    unfolding sorted_int_desc [OF assms] render_int_desc .
qed

lemma main_char_desc_output:
  assumes "qsort_contract 1 qsort"
  shows "main_char_desc signed_char qsort = Some (''z q m b a '' @ [CHR 0x0A], 0)"
proof -
  have "total_ordering (cmp_char_desc signed_char) (set ''zaqmb'')"
    using cmp_char_desc_exact by (rule exact_on_total_ordering)
  with assms have "main_char_desc signed_char qsort =
      Some (render printf_c (qsort ''zaqmb'' (length ''zaqmb'') 1 (cmp_char_desc signed_char)), 0)"
    unfolding main_char_desc_def by (rule order_and_render_contract(1))
  then show ?thesis
    unfolding sorted_char_desc [OF assms] render_char_desc .
qed

text \<open>
  C8. With a library sort that keeps its contract, in each of the four demonstrations
  sorting the already sorted array again, with the same comparator, gives the same array,
  and running the demonstration on the already sorted array prints the same text as
  running it on the original input.
\<close>

theorem demos_idempotent:
  assumes "qsort_contract 4 qsort_int" and "qsort_contract 1 qsort_char"
  shows "qsort_int (qsort_int [5, 2, 9, 1, 5, 6] 6 4 cmp_int) 6 4 cmp_int =
           qsort_int [5, 2, 9, 1, 5, 6] 6 4 cmp_int \<and>
         order_and_render qsort_int 4 cmp_int printf_d (qsort_int [5, 2, 9, 1, 5, 6] 6 4 cmp_int) =
           main_int_asc qsort_int \<and>
         qsort_int (qsort_int [5, 2, 9, 1, 5, 6] 6 4 cmp_int_desc) 6 4 cmp_int_desc =
           qsort_int [5, 2, 9, 1, 5, 6] 6 4 cmp_int_desc \<and>
         order_and_render qsort_int 4 cmp_int_desc printf_d
             (qsort_int [5, 2, 9, 1, 5, 6] 6 4 cmp_int_desc) =
           main_int_desc qsort_int \<and>
         qsort_char (qsort_char (''salam'' @ [CHR 0x00]) 6 1 (cmp_char_asc signed_char)) 6 1
             (cmp_char_asc signed_char) =
           qsort_char (''salam'' @ [CHR 0x00]) 6 1 (cmp_char_asc signed_char) \<and>
         order_and_render qsort_char 1 (cmp_char_asc signed_char) printf_c
             (qsort_char (''salam'' @ [CHR 0x00]) 6 1 (cmp_char_asc signed_char)) =
           main_char_asc signed_char qsort_char \<and>
         qsort_char (qsort_char ''zaqmb'' 5 1 (cmp_char_desc signed_char)) 5 1
             (cmp_char_desc signed_char) =
           qsort_char ''zaqmb'' 5 1 (cmp_char_desc signed_char) \<and>
         order_and_render qsort_char 1 (cmp_char_desc signed_char) printf_c
             (qsort_char ''zaqmb'' 5 1 (cmp_char_desc signed_char)) =
           main_char_desc signed_char qsort_char"
proof -
  have 6: "length [5, 2, 9, 1, 5, 6 :: c_int] = 6" "length (''salam'' @ [CHR 0x00]) = 6"
    and 5: "length ''zaqmb'' = 5" by simp_all
  note a = qsort_idempotent [OF assms(1) int_arr_asc_exact inj_sint, unfolded 6]
    order_and_render_idempotent [OF assms(1) int_arr_asc_exact inj_sint, unfolded 6]
  note b = qsort_idempotent [OF assms(1) int_arr_desc_exact inj_neg_sint, unfolded 6]
    order_and_render_idempotent [OF assms(1) int_arr_desc_exact inj_neg_sint, unfolded 6]
  note c = qsort_idempotent [where arr = "''salam'' @ [CHR 0x00]",
      OF assms(2) cmp_char_asc_exact inj_promote, unfolded 6]
    order_and_render_idempotent [where arr = "''salam'' @ [CHR 0x00]",
      OF assms(2) cmp_char_asc_exact inj_promote, unfolded 6]
  note d = qsort_idempotent [where arr = "''zaqmb''",
      OF assms(2) cmp_char_desc_exact inj_neg_promote, unfolded 5]
    order_and_render_idempotent [where arr = "''zaqmb''",
      OF assms(2) cmp_char_desc_exact inj_neg_promote, unfolded 5]
  show ?thesis
    unfolding main_int_asc_def main_int_desc_def main_char_asc_def main_char_desc_def
    by (intro conjI a b c d)
qed

text \<open>
  The hypotheses of C8 hold for the insertion sort.
\<close>

theorem demos_idempotent_witness:
  "qsort_contract 4 (insertion_qsort :: c_int list \<Rightarrow> _) \<and>
   qsort_contract 1 (insertion_qsort :: char list \<Rightarrow> _) \<and>
   insertion_qsort (insertion_qsort [5, 2, 9, 1, 5, 6] 6 4 cmp_int) 6 4 cmp_int =
     insertion_qsort [5, 2, 9, 1, 5, 6] 6 4 cmp_int \<and>
   order_and_render insertion_qsort 1 (cmp_char_desc True) printf_c
       (insertion_qsort ''zaqmb'' 5 1 (cmp_char_desc True)) =
     main_char_desc True insertion_qsort"
  using demos_idempotent [OF insertion_qsort_contract insertion_qsort_contract, of True]
    insertion_qsort_contract [of 4, where 'a = c_int] insertion_qsort_contract [of 1, where 'a = char]
  by blast

lemma cmp_int_not_total: "\<not> total_ordering cmp_int UNIV"
proof
  assume "total_ordering cmp_int UNIV"
  then have "sint (cmp_int 0x80000000 0) \<le> 0 \<and> sint (cmp_int 0 1) \<le> 0 \<longrightarrow>
             sint (cmp_int 0x80000000 1) \<le> 0"
    unfolding total_ordering_def by blast
  then show False by (simp add: cmp_int_def)
qed

lemma cmp_int_desc_not_total: "\<not> total_ordering cmp_int_desc UNIV"
proof
  assume "total_ordering cmp_int_desc UNIV"
  then have "sint (cmp_int_desc 1 0) \<le> 0 \<and> sint (cmp_int_desc 0 0x80000000) \<le> 0 \<longrightarrow>
             sint (cmp_int_desc 1 0x80000000) \<le> 0"
    unfolding total_ordering_def by blast
  then show False by (simp add: cmp_int_desc_def)
qed

text \<open>
  C9. The sign of \<open>cmp_int a b\<close> is the sign of the mathematical difference \<open>a - b\<close>
  exactly when that difference is representable in an \<open>int\<close>, and the sign of
  \<open>cmp_int_desc a b\<close> is the sign of \<open>b - a\<close>, the difference it computes, exactly when
  that difference is representable. For every pair of elements of the demonstration array
  \<open>{5, 2, 9, 1, 5, 6}\<close> the difference is representable and both comparators have the
  exact sign, so on the demonstration array each is a total ordering; on all of \<open>int\<close>
  neither is.
\<close>

theorem subtraction_comparators_exact:
  "(\<forall>a b. sgn (sint (cmp_int a b)) = sgn (sint a - sint b) \<longleftrightarrow>
           - 2147483648 \<le> sint a - sint b \<and> sint a - sint b < 2147483648) \<and>
   (\<forall>a b. sgn (sint (cmp_int_desc a b)) = sgn (sint b - sint a) \<longleftrightarrow>
           - 2147483648 \<le> sint b - sint a \<and> sint b - sint a < 2147483648) \<and>
   (\<forall>a\<in>set [5, 2, 9, 1, 5, 6 :: c_int]. \<forall>b\<in>set [5, 2, 9, 1, 5, 6 :: c_int].
      - 2147483648 \<le> sint a - sint b \<and> sint a - sint b < 2147483648 \<and>
      sgn (sint (cmp_int a b)) = sgn (sint a - sint b) \<and>
      sgn (sint (cmp_int_desc a b)) = sgn (sint b - sint a)) \<and>
   total_ordering cmp_int (set [5, 2, 9, 1, 5, 6]) \<and>
   total_ordering cmp_int_desc (set [5, 2, 9, 1, 5, 6]) \<and>
   \<not> total_ordering cmp_int UNIV \<and> \<not> total_ordering cmp_int_desc UNIV"
proof (intro conjI allI)
  fix a b :: c_int
  show "sgn (sint (cmp_int a b)) = sgn (sint a - sint b) \<longleftrightarrow>
           - 2147483648 \<le> sint a - sint b \<and> sint a - sint b < 2147483648"
    unfolding cmp_int_def by (rule sint_diff_sgn_iff)
  show "sgn (sint (cmp_int_desc a b)) = sgn (sint b - sint a) \<longleftrightarrow>
           - 2147483648 \<le> sint b - sint a \<and> sint b - sint a < 2147483648"
    unfolding cmp_int_desc_def by (rule sint_diff_sgn_iff)
next
  show "\<forall>a\<in>set [5, 2, 9, 1, 5, 6 :: c_int]. \<forall>b\<in>set [5, 2, 9, 1, 5, 6 :: c_int].
      - 2147483648 \<le> sint a - sint b \<and> sint a - sint b < 2147483648 \<and>
      sgn (sint (cmp_int a b)) = sgn (sint a - sint b) \<and>
      sgn (sint (cmp_int_desc a b)) = sgn (sint b - sint a)"
  proof (intro ballI)
    fix a b :: c_int
    assume ab: "a \<in> set [5, 2, 9, 1, 5, 6]" "b \<in> set [5, 2, 9, 1, 5, 6]"
    with int_arr_representable
    have r: "- 2147483648 \<le> sint a - sint b \<and> sint a - sint b < 2147483648" by blast
    from ab int_arr_asc_exact have "sgn (sint (cmp_int a b)) = sgn (sint a - sint b)"
      unfolding exact_on_def by blast
    moreover from ab int_arr_desc_exact have "sgn (sint (cmp_int_desc a b)) = sgn (sint b - sint a)"
      unfolding exact_on_def by fastforce
    ultimately show "- 2147483648 \<le> sint a - sint b \<and> sint a - sint b < 2147483648 \<and>
      sgn (sint (cmp_int a b)) = sgn (sint a - sint b) \<and>
      sgn (sint (cmp_int_desc a b)) = sgn (sint b - sint a)" using r by blast
  qed
next
  show "total_ordering cmp_int (set [5, 2, 9, 1, 5, 6])"
    using int_arr_asc_exact by (rule exact_on_total_ordering)
  show "total_ordering cmp_int_desc (set [5, 2, 9, 1, 5, 6])"
    using int_arr_desc_exact by (rule exact_on_total_ordering)
  show "\<not> total_ordering cmp_int UNIV" by (rule cmp_int_not_total)
  show "\<not> total_ordering cmp_int_desc UNIV" by (rule cmp_int_desc_not_total)
qed

text \<open>
  C9 at the pair \<open>(9, 1)\<close> of the demonstration array, and at the pair
  \<open>(INT_MIN, 1)\<close> whose difference is not representable.
\<close>

theorem subtraction_comparators_exact_witness:
  "(9 :: c_int) \<in> set [5, 2, 9, 1, 5, 6] \<and> (1 :: c_int) \<in> set [5, 2, 9, 1, 5, 6] \<and>
   sgn (sint (cmp_int 9 1)) = sgn (sint (9 :: c_int) - sint (1 :: c_int)) \<and>
   sgn (sint (cmp_int_desc 9 1)) = sgn (sint (1 :: c_int) - sint (9 :: c_int)) \<and>
   sgn (sint (cmp_int 0x80000000 1)) \<noteq> sgn (sint (0x80000000 :: c_int) - sint (1 :: c_int))"
proof -
  have m: "(9 :: c_int) \<in> set [5, 2, 9, 1, 5, 6]" "(1 :: c_int) \<in> set [5, 2, 9, 1, 5, 6]"
    by simp_all
  have "\<not> (- 2147483648 \<le> sint (0x80000000 :: c_int) - sint (1 :: c_int))" by simp
  with subtraction_comparators_exact m show ?thesis by blast
qed

end
